theory Spec2Isabelle
  imports Main "HOL-Library.Word"
begin

unbundle bit_operations_syntax

section \<open>The data of pathcomp.c\<close>

text \<open>
  \<^verbatim>\<open>#define LLA 64\<close>: the number of element identifiers, one bit of the
  \<^verbatim>\<open>uint64_t\<close> field \<^verbatim>\<open>letters_table\<close> each.
\<close>

definition LLA :: nat where
  "LLA = 64"

text \<open>
  \<^verbatim>\<open>struct node\<close>. Nodes live in a heap, a list indexed by address; the
  pointer \<^verbatim>\<open>next\<close> is an address or \<open>None\<close> for \<^verbatim>\<open>NULL\<close>.
\<close>

record node =
  letters_table :: "64 word"
  next_ptr :: "nat option"
  weight :: "32 word"

type_synonym heap = "node list"

text \<open>
  What stops a run of the C program before \<^verbatim>\<open>insert_path\<close> returns: reading through
  \<^verbatim>\<open>NULL\<close> (an address outside the heap counts as such; \<^verbatim>\<open>calloc\<close> never hands one
  out), and \<^verbatim>\<open>exit(1)\<close> after a failed \<^verbatim>\<open>calloc\<close>. A stopped run keeps the heap it
  had reached. The source has no other exit: it checks neither the identifiers nor the
  length of the path.
\<close>

datatype fault = NullDeref | OutOfMemory

type_synonym 'a outcome = "(fault \<times> heap) + 'a"

fun heap_of :: "heap outcome \<Rightarrow> heap" where
  "heap_of (Inl (f, h)) = h"
| "heap_of (Inr h) = h"

definition valid_id :: "int \<Rightarrow> bool" where
  "valid_id pos = (0 \<le> pos \<and> pos < int LLA)"

text \<open>
  The shift \<^verbatim>\<open>1ULL << k\<close> with an \<^verbatim>\<open>int\<close> count \<open>k\<close>. For \<open>k\<close> from 0 to 63 it is
  bit \<open>k\<close>. For any other count C leaves it undefined, and the source computes it all the
  same; \<open>ub k\<close> stands for the 64-bit value the compiled program obtains then. Every
  theorem below holds for each function \<open>ub\<close>.
\<close>

definition shift1 :: "(int \<Rightarrow> 64 word) \<Rightarrow> int \<Rightarrow> 64 word" where
  "shift1 ub k = (if valid_id k then push_bit (nat k) 1 else ub k)"

text \<open>\<^verbatim>\<open>calloc(1, sizeof(struct node))\<close>: a zeroed node at the next free address, or
  failure once \<open>cap\<close> nodes exist.\<close>

definition calloc_node :: node where
  "calloc_node = \<lparr>letters_table = 0, next_ptr = None, weight = 0\<rparr>"

definition calloc :: "nat \<Rightarrow> heap \<Rightarrow> (nat \<times> heap) option" where
  "calloc cap h = (if length h < cap then Some (length h, h @ [calloc_node]) else None)"

definition deref :: "heap \<Rightarrow> nat option \<Rightarrow> node option" where
  "deref h p = (case p of None \<Rightarrow> None | Some a \<Rightarrow> if a < length h then Some (h ! a) else None)"

section \<open>count\_uper\_bits\<close>

text \<open>
  \<^verbatim>\<open>for (int j = pos + 1; j < LLA; j++) if (i->letters_table & (1ULL << j)) count++;\<close>
  The counter \<open>j\<close> runs over the integers from \<open>pos + 1\<close> to 63; it is negative at
  first when \<open>pos < -1\<close>, and the loop does not run when \<open>pos \<ge> 63\<close>. The sum
  \<open>pos + 1\<close> is that of the integers, which is C's for every \<^verbatim>\<open>int\<close> but the largest.
\<close>

definition count_uper_bits :: "(int \<Rightarrow> 64 word) \<Rightarrow> node \<Rightarrow> int \<Rightarrow> nat" where
  "count_uper_bits ub i pos =
     length (filter (\<lambda>j. letters_table i AND shift1 ub j \<noteq> 0) [pos + 1..int LLA - 1])"

section \<open>insert\_path\<close>

text \<open>\<^verbatim>\<open>for (int j = n; j > 0; j--) i = i->next;\<close> with \<open>None\<close> for a read through
  \<^verbatim>\<open>NULL\<close>.\<close>

fun advance :: "heap \<Rightarrow> nat option \<Rightarrow> nat \<Rightarrow> nat option option" where
  "advance h i 0 = Some i"
| "advance h i (Suc j) =
     (case deref h i of None \<Rightarrow> None | Some nd \<Rightarrow> advance h (next_ptr nd) j)"

text \<open>One iteration of the loop over \<^verbatim>\<open>path\<close>, at the node \<open>i\<close> with \<open>pos = path[k]\<close>.\<close>

fun insert_step ::
  "(int \<Rightarrow> 64 word) \<Rightarrow> nat \<Rightarrow> heap \<Rightarrow> nat option \<Rightarrow> int \<Rightarrow> (heap \<times> nat option) outcome" where
  "insert_step ub cap h None pos = Inl (NullDeref, h)"
| "insert_step ub cap h (Some a) pos =
     (if \<not> a < length h then Inl (NullDeref, h)
      else
        let h1 = h[a := (h ! a)\<lparr>letters_table := letters_table (h ! a) OR shift1 ub pos\<rparr>];
            n = count_uper_bits ub (h1 ! a) pos
        in if n > 0 then
             (case advance h1 (Some a) n of
                None \<Rightarrow> Inl (NullDeref, h1)
              | Some i' \<Rightarrow> Inr (h1, i'))
           else
             (case calloc cap h1 of
                None \<Rightarrow> Inl (OutOfMemory, h1)
              | Some (new_node, h2) \<Rightarrow>
                  let temp = next_ptr (h2 ! a);
                      h3 = h2[a := (h2 ! a)\<lparr>next_ptr := Some new_node\<rparr>];
                      h4 = h3[new_node := (h3 ! new_node)\<lparr>next_ptr := temp\<rparr>]
                  in Inr (h4, Some new_node)))"

fun path_loop ::
  "(int \<Rightarrow> 64 word) \<Rightarrow> nat \<Rightarrow> heap \<Rightarrow> nat option \<Rightarrow> int list \<Rightarrow> (heap \<times> nat option) outcome" where
  "path_loop ub cap h i [] = Inr (h, i)"
| "path_loop ub cap h i (pos # path) =
     (case insert_step ub cap h i pos of
        Inl e \<Rightarrow> Inl e
      | Inr (h', i') \<Rightarrow> path_loop ub cap h' i' path)"

text \<open>
  The two statements after the loop,
  \<^verbatim>\<open>i->letters_table |= (1ULL << LLA); i->weight = weight;\<close>
  This shift by 64 is undefined too, and its count is a constant that a compiler may
  evaluate by a rule of its own. \<open>em\<close> stands for the 64-bit value the compiled program
  uses for \<^verbatim>\<open>1ULL << LLA\<close>; every theorem below holds for each value of it. The
  \<^verbatim>\<open>int\<close> weight is converted to \<^verbatim>\<open>uint32_t\<close>.
\<close>

fun mark_end :: "64 word \<Rightarrow> heap \<Rightarrow> nat option \<Rightarrow> int \<Rightarrow> heap outcome" where
  "mark_end em h None w = Inl (NullDeref, h)"
| "mark_end em h (Some a) w =
     (if a < length h
      then Inr (h[a := (h ! a)\<lparr>letters_table := letters_table (h ! a) OR em,
                               weight := word_of_int w\<rparr>])
      else Inl (NullDeref, h))"

definition insert_path ::
  "64 word \<Rightarrow> (int \<Rightarrow> 64 word) \<Rightarrow> nat \<Rightarrow> heap \<Rightarrow> nat option \<Rightarrow> int list \<Rightarrow> int \<Rightarrow> heap outcome" where
  "insert_path em ub cap h root path w =
     (case path_loop ub cap h root path of
        Inl e \<Rightarrow> Inl e
      | Inr (h', i) \<Rightarrow> mark_end em h' i w)"

text \<open>The test of \<^verbatim>\<open>main\<close> for the end mark: \<^verbatim>\<open>letters_table & (1ULL << LLA)\<close>.\<close>

definition is_marked :: "64 word \<Rightarrow> node \<Rightarrow> bool" where
  "is_marked em nd = (letters_table nd AND em \<noteq> 0)"

text \<open>The value of \<^verbatim>\<open>1ULL << LLA\<close> when the shift is done on the integers and cut to
  64 bits, and when the shift count is cut to 6 bits as the x86 shift instruction does.\<close>

definition end_mark_truncated :: "64 word" where
  "end_mark_truncated = push_bit LLA 1"

definition end_mark_wrapped :: "64 word" where
  "end_mark_wrapped = push_bit (LLA mod 64) 1"

text \<open>The undefined shifts as the x86 shift instruction computes them, with the count cut
  to 6 bits.\<close>

definition shift_wrapped :: "int \<Rightarrow> 64 word" where
  "shift_wrapped k = push_bit (nat (k mod 64)) 1"

text \<open>\<^verbatim>\<open>main\<close> starts from one zeroed root node, at address 0.\<close>

definition fresh_trie :: heap where
  "fresh_trie = [calloc_node]"

section \<open>Auxiliary notions for the statements\<close>

text \<open>
  The nodes that \<^verbatim>\<open>free_path\<close> visits from \<open>p\<close>, in order: \<open>is_chain h p as\<close> says
  that following \<^verbatim>\<open>next\<close> from \<open>p\<close> passes through exactly the addresses \<open>as\<close> and
  then reaches \<^verbatim>\<open>NULL\<close>.
\<close>

fun is_chain :: "heap \<Rightarrow> nat option \<Rightarrow> nat list \<Rightarrow> bool" where
  "is_chain h p [] = (p = None)"
| "is_chain h p (a # as) = (p = Some a \<and> a < length h \<and> is_chain h (next_ptr (h ! a)) as)"

text \<open>The two heap updates of an iteration, named for the proofs: line 69, and the
  splice of lines 76 to 84.\<close>

definition set_letter :: "(int \<Rightarrow> 64 word) \<Rightarrow> heap \<Rightarrow> nat \<Rightarrow> int \<Rightarrow> heap" where
  "set_letter ub h a pos =
     h[a := (h ! a)\<lparr>letters_table := letters_table (h ! a) OR shift1 ub pos\<rparr>]"

definition splice_after :: "heap \<Rightarrow> nat \<Rightarrow> heap" where
  "splice_after h a =
     (h @ [calloc_node\<lparr>next_ptr := next_ptr (h ! a)\<rparr>])[a := (h ! a)\<lparr>next_ptr := Some (length h)\<rparr>]"

fun loop_heap :: "(heap \<times> nat option) outcome \<Rightarrow> heap" where
  "loop_heap (Inl (f, h)) = h"
| "loop_heap (Inr (h, i)) = h"

fun stopped_by :: "heap outcome \<Rightarrow> fault option" where
  "stopped_by (Inl (f, h)) = Some f"
| "stopped_by (Inr h) = None"

text \<open>A run that returns, or stops only because \<^verbatim>\<open>calloc\<close> failed.\<close>

definition no_crash :: "heap outcome \<Rightarrow> bool" where
  "no_crash r = (stopped_by r = None \<or> stopped_by r = Some OutOfMemory)"

text \<open>\<open>grows h h'\<close>: no node is lost, no weight of an old node changes, no bit of an old
  node is cleared, and new nodes have weight 0.\<close>

definition grows :: "heap \<Rightarrow> heap \<Rightarrow> bool" where
  "grows h h' =
     (length h \<le> length h' \<and>
      (\<forall>a<length h. weight (h' ! a) = weight (h ! a) \<and>
         (\<forall>j. bit (letters_table (h ! a)) j \<longrightarrow> bit (letters_table (h' ! a)) j)) \<and>
      (\<forall>a<length h'. length h \<le> a \<longrightarrow> weight (h' ! a) = 0))"

text \<open>\<open>same_old h g\<close>: every node of \<open>h\<close> has the same table and weight in \<open>g\<close>.\<close>

definition same_old :: "heap \<Rightarrow> heap \<Rightarrow> bool" where
  "same_old h g =
     (length h \<le> length g \<and>
      (\<forall>x<length h. letters_table (g ! x) = letters_table (h ! x) \<and> weight (g ! x) = weight (h ! x)))"

section \<open>Evaluation and unfolding\<close>

lemma bit_test: "(w AND push_bit j 1 \<noteq> 0) = bit w j" for w :: "64 word"
  by (simp add: and_exp_eq_0_iff_not_bit push_bit_eq_mult)

lemma shift1_valid: "valid_id k \<Longrightarrow> shift1 ub k = push_bit (nat k) 1"
  by (simp add: shift1_def)

lemma table_test: "valid_id j \<Longrightarrow> (w AND shift1 ub j \<noteq> 0) = bit w (nat j)"
  using bit_test [of w "nat j"] by (simp add: shift1_valid)

lemma count_uper_bits_cong:
  "letters_table nd = letters_table nd' \<Longrightarrow> count_uper_bits ub nd pos = count_uper_bits ub nd' pos"
  by (simp add: count_uper_bits_def)

lemma count_uper_bits_single:
  assumes "valid_id pos" "letters_table nd = push_bit (nat pos) 1"
  shows "count_uper_bits ub nd pos = 0"
proof -
  have "\<not> (letters_table nd AND shift1 ub j \<noteq> 0)" if "j \<in> set [pos + 1..int LLA - 1]" for j
  proof -
    have j: "valid_id j" "nat j \<noteq> nat pos"
      using that assms(1) by (auto simp: valid_id_def)
    then show ?thesis
      using assms(2) by (simp add: table_test bit_exp_iff)
  qed
  then show ?thesis
    unfolding count_uper_bits_def by (simp add: filter_empty_conv)
qed

lemma upto_one: "[1..numeral n] = (if (1::int) \<le> numeral n then 1 # [2..numeral n] else [])"
  by (simp add: upto.simps [of 1])

lemmas run_simps = insert_path_def fresh_trie_def calloc_node_def calloc_def valid_id_def LLA_def
  count_uper_bits_def shift1_valid table_test deref_def Let_def upto_one bit_1_iff

lemma end_mark_truncated_eq: "end_mark_truncated = 0"
  by (simp add: end_mark_truncated_def LLA_def)

lemma end_mark_wrapped_eq: "end_mark_wrapped = 1"
  by (simp add: end_mark_wrapped_def LLA_def)

lemma insert_path_Nil: "insert_path em ub cap h i [] w = mark_end em h i w"
  by (simp add: insert_path_def)

lemma insert_path_Cons:
  "insert_path em ub cap h i (pos # path) w =
     (case insert_step ub cap h i pos of
        Inl e \<Rightarrow> Inl e
      | Inr (h', i') \<Rightarrow> insert_path em ub cap h' i' path w)"
  by (simp add: insert_path_def split: sum.splits)

lemma insert_step_Some:
  assumes "a < length h"
  shows "insert_step ub cap h (Some a) pos =
     (let h1 = set_letter ub h a pos; n = count_uper_bits ub (h1 ! a) pos
      in if n > 0 then
           (case advance h1 (Some a) n of None \<Rightarrow> Inl (NullDeref, h1) | Some i' \<Rightarrow> Inr (h1, i'))
         else if length h < cap then Inr (splice_after h1 a, Some (length h))
         else Inl (OutOfMemory, h1))"
  using assms
  by (auto simp: Let_def set_letter_def splice_after_def calloc_def nth_append list_update_append
        intro!: nth_equalityI split: option.splits simp: nth_list_update)

lemma insert_step_bad_ptr: "\<not> a < length h \<Longrightarrow> insert_step ub cap h (Some a) pos = Inl (NullDeref, h)"
  by simp

lemma insert_step_None: "insert_step ub cap h None pos = Inl (NullDeref, h)"
  by simp

lemmas insert_step_eval = insert_step.simps

declare insert_step.simps [simp del]

lemma no_crash_simps [simp]:
  "no_crash (Inr h)"
  "no_crash (Inl (OutOfMemory, h))"
  "\<not> no_crash (Inl (NullDeref, h))"
  by (simp_all add: no_crash_def)

lemma insert_path_None: "insert_path em ub cap h None path w = Inl (NullDeref, h)"
  by (cases path) (simp_all add: insert_path_Nil insert_path_Cons insert_step_None)

lemma path_loop_None: "path_loop ub cap h None path = Inr (h', Some c) \<Longrightarrow> False"
  by (cases path) (simp_all add: insert_step_None)

section \<open>What an iteration keeps\<close>

lemma grows_refl: "grows h h"
  by (simp add: grows_def)

lemma grows_trans: "grows h g \<Longrightarrow> grows g k \<Longrightarrow> grows h k"
  unfolding grows_def
  by (metis (no_types, opaque_lifting) le_trans not_le_imp_less order.strict_trans2)

lemma length_set_letter: "length (set_letter ub h a pos) = length h"
  by (simp add: set_letter_def)

lemma length_splice_after: "length (splice_after h a) = Suc (length h)"
  by (simp add: splice_after_def)

lemma grows_set_letter: "grows h (set_letter ub h a pos)"
  by (cases "a < length h") (auto simp: grows_def set_letter_def nth_list_update bit_or_iff)

lemma grows_splice_after: "a < length h \<Longrightarrow> grows h (splice_after h a)"
  by (auto simp: grows_def splice_after_def nth_list_update nth_append calloc_node_def)

lemma grows_insert_step: "grows h (loop_heap (insert_step ub cap h i pos))"
proof (cases i)
  case None
  then show ?thesis by (simp add: insert_step_None grows_refl)
next
  case (Some a)
  show ?thesis
  proof (cases "a < length h")
    case False
    with Some show ?thesis
      by (simp add: insert_step_bad_ptr grows_refl)
  next
    case True
    have "grows (set_letter ub h a pos) (splice_after (set_letter ub h a pos) a)"
      using True by (intro grows_splice_after) (simp add: length_set_letter)
    then have "grows h (splice_after (set_letter ub h a pos) a)"
      using grows_set_letter grows_trans by blast
    then show ?thesis
      using True Some
      by (auto simp: insert_step_Some Let_def grows_set_letter split: option.splits)
  qed
qed

lemma grows_path_loop: "grows h (loop_heap (path_loop ub cap h i path))"
proof (induction path arbitrary: h i)
  case Nil
  show ?case by (simp add: grows_refl)
next
  case (Cons pos path)
  show ?case
  proof (cases "insert_step ub cap h i pos")
    case (Inl e)
    then show ?thesis
      using grows_insert_step [of h ub cap i pos] by (cases e) simp
  next
    case (Inr r)
    obtain h' i' where r: "r = (h', i')" by (cases r)
    have "grows h h'"
      using grows_insert_step [of h ub cap i pos] Inr r by simp
    moreover have "grows h' (loop_heap (path_loop ub cap h' i' path))"
      by (rule Cons.IH)
    ultimately show ?thesis
      using Inr r by (simp add: grows_trans)
  qed
qed

section \<open>Chains\<close>

lemma is_chain_bound: "is_chain h p as \<Longrightarrow> a \<in> set as \<Longrightarrow> a < length h"
  by (induction as arbitrary: p) auto

lemma is_chain_unique: "is_chain h p as \<Longrightarrow> is_chain h p bs \<Longrightarrow> as = bs"
proof (induction as arbitrary: p bs)
  case Nil
  then show ?case by (cases bs) auto
next
  case (Cons a as)
  then show ?case by (cases bs) auto
qed

lemma is_chain_append: "is_chain h p (xs @ a # ys) \<Longrightarrow> is_chain h (Some a) (a # ys)"
  by (induction xs arbitrary: p) auto

lemma is_chain_distinct: "is_chain h p as \<Longrightarrow> distinct as"
proof (induction as arbitrary: p)
  case Nil
  show ?case by simp
next
  case (Cons a as)
  have rest: "is_chain h (next_ptr (h ! a)) as"
    using Cons.prems by simp
  have "a \<notin> set as"
  proof
    assume "a \<in> set as"
    then obtain xs ys where split: "as = xs @ a # ys"
      by (auto dest: split_list)
    with rest have "is_chain h (Some a) (a # ys)"
      by (auto dest: is_chain_append)
    then have "is_chain h (next_ptr (h ! a)) ys" by simp
    with rest have "as = ys" by (rule is_chain_unique)
    with split show False by simp
  qed
  with Cons.IH [OF rest] show ?case by simp
qed

lemma is_chain_cong:
  "is_chain h p as \<Longrightarrow> \<forall>a\<in>set as. a < length g \<and> next_ptr (g ! a) = next_ptr (h ! a)
     \<Longrightarrow> is_chain g p as"
  by (induction as arbitrary: p) auto

lemma is_chain_drop:
  "is_chain h p as \<Longrightarrow> n < length as \<Longrightarrow> is_chain h (Some (as ! n)) (drop n as)"
proof (induction n arbitrary: p as)
  case 0
  then show ?case by (cases as) auto
next
  case (Suc n)
  then show ?case by (cases as) auto
qed

lemma advance_is_chain:
  "is_chain h p as \<Longrightarrow> advance h p n = Some (Some c) \<Longrightarrow> n < length as \<and> as ! n = c"
proof (induction n arbitrary: p as)
  case 0
  then show ?case by (cases as) auto
next
  case (Suc n)
  then show ?case
    by (cases as) (auto simp: deref_def split: option.splits if_splits)
qed

lemma advance_cong:
  "is_chain h p as \<Longrightarrow> n \<le> length as
     \<Longrightarrow> \<forall>a\<in>set (take n as). a < length g \<and> next_ptr (g ! a) = next_ptr (h ! a)
     \<Longrightarrow> advance g p n = advance h p n"
proof (induction n arbitrary: p as)
  case 0
  show ?case by simp
next
  case (Suc n)
  then show ?case
    by (cases as) (auto simp: deref_def split: option.splits)
qed

section \<open>The cursor and its chain\<close>

lemma nth_set_letter_other: "x \<noteq> a \<Longrightarrow> set_letter ub h a pos ! x = h ! x"
  by (simp add: set_letter_def)

lemma next_ptr_set_letter: "next_ptr (set_letter ub h a pos ! x) = next_ptr (h ! x)"
  by (cases "a < length h"; cases "x = a") (simp_all add: set_letter_def list_update_beyond)

lemma weight_set_letter: "weight (set_letter ub h a pos ! x) = weight (h ! x)"
  by (cases "a < length h"; cases "x = a") (simp_all add: set_letter_def list_update_beyond)

lemma table_set_letter:
  "a < length h \<Longrightarrow> letters_table (set_letter ub h a pos ! a) = letters_table (h ! a) OR shift1 ub pos"
  by (simp add: set_letter_def)

lemma set_letter_idem:
  "letters_table (h ! a) OR shift1 ub pos = letters_table (h ! a) \<Longrightarrow> set_letter ub h a pos = h"
  by (simp add: set_letter_def)

lemma nth_splice_after_other:
  "x < length h \<Longrightarrow> x \<noteq> a \<Longrightarrow> splice_after h a ! x = h ! x"
  by (simp add: splice_after_def nth_append)

lemma nth_splice_after_new:
  "a < length h \<Longrightarrow> splice_after h a ! length h = calloc_node\<lparr>next_ptr := next_ptr (h ! a)\<rparr>"
  by (simp add: splice_after_def nth_append)

lemma nth_splice_after_old:
  "a < length h \<Longrightarrow> splice_after h a ! a = (h ! a)\<lparr>next_ptr := Some (length h)\<rparr>"
  by (simp add: splice_after_def nth_append)

lemma is_chain_set_letter: "is_chain (set_letter ub h a pos) p as = is_chain h p as"
  by (induction as arbitrary: p) (simp_all add: length_set_letter next_ptr_set_letter)

text \<open>The chain of the cursor after one iteration.\<close>

lemma insert_step_chain:
  assumes ch: "is_chain h (Some a) (a # as)"
    and step: "insert_step ub cap h (Some a) pos = Inr (h', Some c)"
  shows "\<exists>cs. is_chain h' (Some c) (c # cs) \<and> set (c # cs) \<subseteq> insert (length h) (set as)"
proof -
  have a: "a < length h" using ch by simp
  have dist: "a \<notin> set as" using is_chain_distinct [OF ch] by simp
  define h1 where "h1 = set_letter ub h a pos"
  define n where "n = count_uper_bits ub (h1 ! a) pos"
  have ch1: "is_chain h1 (Some a) (a # as)"
    unfolding h1_def is_chain_set_letter using ch .
  show ?thesis
  proof (cases "n > 0")
    case True
    with step a have adv: "advance h1 (Some a) n = Some (Some c)" and h': "h' = h1"
      by (auto simp: insert_step_Some Let_def h1_def n_def split: option.splits)
    from advance_is_chain [OF ch1 adv] have n: "n < length (a # as)" and c: "(a # as) ! n = c"
      by auto
    have "is_chain h1 (Some c) (drop n (a # as))"
      using is_chain_drop [OF ch1 n] c by simp
    moreover have "drop n (a # as) = c # drop (Suc n) (a # as)"
      using n c by (metis Cons_nth_drop_Suc)
    moreover have "set (drop n (a # as)) \<subseteq> set as"
      using True by (cases n) (auto dest: in_set_dropD)
    ultimately show ?thesis
      unfolding h' by (metis subset_insertI2)
  next
    case False
    with step a have c: "c = length h" and h': "h' = splice_after h1 a"
      by (auto simp: insert_step_Some Let_def h1_def n_def split: if_splits)
    have a1: "a < length h1" using a by (simp add: h1_def length_set_letter)
    have len1: "length h1 = length h" by (simp add: h1_def length_set_letter)
    have rest: "is_chain h1 (next_ptr (h1 ! a)) as" using ch1 by simp
    have "is_chain h' (next_ptr (h1 ! a)) as"
    proof (rule is_chain_cong [OF rest], intro ballI)
      fix x assume x: "x \<in> set as"
      then have "x < length h1" using is_chain_bound [OF rest] by blast
      moreover have "x \<noteq> a" using x dist by auto
      ultimately show "x < length h' \<and> next_ptr (h' ! x) = next_ptr (h1 ! x)"
        by (simp add: h' nth_splice_after_other length_splice_after)
    qed
    then have "is_chain h' (Some c) (c # as)"
      using a1 by (simp add: c h' length_splice_after len1 [symmetric] nth_splice_after_new)
    then show ?thesis
      by (auto simp: c)
  qed
qed

text \<open>One iteration leaves every node but the cursor's as it was.\<close>

lemma insert_step_frame:
  assumes "insert_step ub cap h (Some a) pos = Inr (h', i')" "x < length h" "x \<noteq> a"
  shows "h' ! x = h ! x"
proof (cases "a < length h")
  case False
  with assms show ?thesis
    by (simp add: insert_step_bad_ptr)
next
  case True
  with assms show ?thesis
    by (auto simp: insert_step_Some Let_def nth_set_letter_other nth_splice_after_other
          length_set_letter split: if_splits option.splits)
qed

lemma insert_step_length:
  assumes "insert_step ub cap h i pos = Inr (h', i')"
  shows "length h \<le> length h'"
  using grows_insert_step [of h ub cap i pos] assms by (simp add: grows_def)

lemma insert_path_frame:
  assumes "is_chain h (Some a) (a # as)" "\<forall>p\<in>set path. valid_id p"
    and "insert_path em ub cap h (Some a) path w = Inr H"
    and "x < length h" "x \<notin> set (a # as)"
  shows "H ! x = h ! x"
  using assms
proof (induction path arbitrary: h a as)
  case Nil
  then show ?case
    by (auto simp: insert_path_Nil split: if_splits)
next
  case (Cons pos path)
  from Cons.prems(3) obtain h1 i1 where step: "insert_step ub cap h (Some a) pos = Inr (h1, i1)"
    and rest: "insert_path em ub cap h1 i1 path w = Inr H"
    by (auto simp: insert_path_Cons split: sum.splits)
  from rest obtain c where i1: "i1 = Some c"
    by (cases i1) (auto simp: insert_path_None)
  from insert_step_chain [OF Cons.prems(1) step [unfolded i1]] Cons.prems(2)
  obtain cs where ch1: "is_chain h1 (Some c) (c # cs)"
    and sub: "set (c # cs) \<subseteq> insert (length h) (set as)" by auto
  have x1: "x < length h1"
    using insert_step_length [OF step] Cons.prems(4) by simp
  have "x \<notin> set (c # cs)"
    using sub Cons.prems(4,5) by auto
  with Cons.IH [OF ch1 _ rest [unfolded i1] x1] Cons.prems(2)
  have "H ! x = h1 ! x" by simp
  also have "h1 ! x = h ! x"
    using insert_step_frame [OF step Cons.prems(4)] Cons.prems(5) by simp
  finally show ?case .
qed

section \<open>Inserting a path a second time\<close>

text \<open>From a node with an empty table every iteration allocates.\<close>

lemma insert_path_fresh:
  assumes "d < length g" "letters_table (g ! d) = 0" "\<forall>p\<in>set path. valid_id p"
  shows "no_crash (insert_path em ub cap g (Some d) path w) \<and>
     length g \<le> length (heap_of (insert_path em ub cap g (Some d) path w)) \<and>
     (\<forall>x<length g. x \<noteq> d \<longrightarrow>
         letters_table (heap_of (insert_path em ub cap g (Some d) path w) ! x) = letters_table (g ! x) \<and>
         weight (heap_of (insert_path em ub cap g (Some d) path w) ! x) = weight (g ! x))"
  using assms
proof (induction path arbitrary: g d)
  case Nil
  then show ?case by (simp add: insert_path_Nil)
next
  case (Cons pos path)
  define g1 where "g1 = set_letter ub g d pos"
  have ok: "valid_id pos" using Cons.prems(3) by simp
  have len1: "length g1 = length g" by (simp add: g1_def length_set_letter)
  have "letters_table (g1 ! d) = push_bit (nat pos) 1"
    using Cons.prems(1,2) ok by (simp add: g1_def table_set_letter shift1_valid)
  then have n: "count_uper_bits ub (g1 ! d) pos = 0"
    using ok by (rule count_uper_bits_single [rotated])
  have other1: "letters_table (g1 ! x) = letters_table (g ! x) \<and> weight (g1 ! x) = weight (g ! x)"
    if "x \<noteq> d" for x
    using that by (simp add: g1_def nth_set_letter_other)
  show ?case
  proof (cases "length g < cap")
    case False
    then have "insert_path em ub cap g (Some d) (pos # path) w = Inl (OutOfMemory, g1)"
      using Cons.prems(1) ok n by (simp add: insert_path_Cons insert_step_Some Let_def g1_def)
    then show ?thesis
      using other1 len1 by simp
  next
    case True
    define g2 where "g2 = splice_after g1 d"
    have step: "insert_path em ub cap g (Some d) (pos # path) w = insert_path em ub cap g2 (Some (length g)) path w"
      using True Cons.prems(1) ok n
      by (simp add: insert_path_Cons insert_step_Some Let_def g1_def g2_def)
    have d1: "d < length g1" using Cons.prems(1) len1 by simp
    have len2: "length g2 = Suc (length g)" by (simp add: g2_def length_splice_after len1)
    have new: "letters_table (g2 ! length g) = 0"
      using nth_splice_after_new [OF d1] by (simp add: g2_def len1 calloc_node_def)
    have other2: "g2 ! x = g1 ! x" if "x < length g" "x \<noteq> d" for x
      using that by (simp add: g2_def nth_splice_after_other len1)
    have IH: "no_crash (insert_path em ub cap g2 (Some (length g)) path w) \<and>
       length g2 \<le> length (heap_of (insert_path em ub cap g2 (Some (length g)) path w)) \<and>
       (\<forall>x<length g2. x \<noteq> length g \<longrightarrow>
         letters_table (heap_of (insert_path em ub cap g2 (Some (length g)) path w) ! x) = letters_table (g2 ! x) \<and>
         weight (heap_of (insert_path em ub cap g2 (Some (length g)) path w) ! x) = weight (g2 ! x))"
      using Cons.IH [of "length g" g2] new len2 Cons.prems(3) by simp
    show ?thesis
      unfolding step using IH len2 other1 other2 by auto
  qed
qed

lemma length_mark_end: "mark_end em h i w = Inr H \<Longrightarrow> length H = length h"
  by (cases i) (auto split: if_splits)

lemma insert_path_length:
  assumes "insert_path em ub cap h i path w = Inr H"
  shows "length h \<le> length H"
proof -
  from assms obtain g c where loop: "path_loop ub cap h i path = Inr (g, c)"
    and fin: "mark_end em g c w = Inr H"
    by (auto simp: insert_path_def split: sum.splits)
  have "length h \<le> length g"
    using grows_path_loop [of h ub cap i path] loop by (simp add: grows_def)
  with length_mark_end [OF fin] show ?thesis by simp
qed

lemma same_old_refl: "same_old h h"
  by (simp add: same_old_def)

text \<open>Running the same insertion again, from the heap the first run left.\<close>

lemma insert_path_again:
  assumes "is_chain h (Some a) (a # as)" "\<forall>p\<in>set path. valid_id p"
    and "insert_path em ub cap h (Some a) path w = Inr H"
  shows "no_crash (insert_path em ub cap H (Some a) path w) \<and>
         same_old H (heap_of (insert_path em ub cap H (Some a) path w))"
  using assms
proof (induction path arbitrary: h a as)
  case Nil
  then show ?case
    by (auto simp: insert_path_Nil same_old_def nth_list_update split: if_splits)
next
  case (Cons pos path)
  have a: "a < length h" using Cons.prems(1) by simp
  have ok: "valid_id pos" using Cons.prems(2) by simp
  have dist: "distinct (a # as)" using is_chain_distinct [OF Cons.prems(1)] .
  from Cons.prems(3) obtain h1 i1 where step: "insert_step ub cap h (Some a) pos = Inr (h1, i1)"
    and rest: "insert_path em ub cap h1 i1 path w = Inr H"
    by (auto simp: insert_path_Cons split: sum.splits)
  from rest obtain c where i1: "i1 = Some c"
    by (cases i1) (auto simp: insert_path_None)
  note step = step [unfolded i1] and rest = rest [unfolded i1]
  define h0 where "h0 = set_letter ub h a pos"
  define n where "n = count_uper_bits ub (h0 ! a) pos"
  have len0: "length h0 = length h" by (simp add: h0_def length_set_letter)
  have ch0: "is_chain h0 (Some a) (a # as)"
    unfolding h0_def is_chain_set_letter using Cons.prems(1) .
  have t0: "letters_table (h0 ! a) = letters_table (h ! a) OR shift1 ub pos"
    using a by (simp add: h0_def table_set_letter)
  have len1: "length h \<le> length h1" using insert_step_length [OF step] .
  have lenH: "length h1 \<le> length H" using insert_path_length [OF rest] .
  have aH: "a < length H" using a len1 lenH by simp
  show ?case
  proof (cases "n > 0")
    case True
    with step a ok have adv: "advance h0 (Some a) n = Some (Some c)" and h1: "h1 = h0"
      by (auto simp: insert_step_Some Let_def h0_def n_def split: option.splits)
    from advance_is_chain [OF ch0 adv] have n: "n < length (a # as)" and c: "(a # as) ! n = c"
      by auto
    have dropn: "drop n (a # as) = c # drop (Suc n) (a # as)"
      using n c by (metis Cons_nth_drop_Suc)
    have ch1: "is_chain h1 (Some c) (c # drop (Suc n) (a # as))"
      using is_chain_drop [OF ch0 n] c dropn h1 by simp
    have untouched: "H ! x = h0 ! x" if "x \<in> set (take n (a # as))" for x
    proof -
      have "x \<notin> set (drop n (a # as))"
        using dist that by (metis append_take_drop_id distinct_append disjoint_iff)
      moreover have "x < length h1"
        using that is_chain_bound [OF ch0] h1 by (auto dest: in_set_takeD)
      ultimately show ?thesis
        using insert_path_frame [OF ch1 _ rest, of x] Cons.prems(2) dropn h1 by simp
    qed
    have "a \<in> set (take n (a # as))" using True by (cases n) auto
    then have Ha: "H ! a = h0 ! a" by (rule untouched)
    have idem: "set_letter ub H a pos = H"
      by (rule set_letter_idem) (simp add: Ha t0 or.assoc)
    have "advance H (Some a) n = advance h0 (Some a) n"
    proof (rule advance_cong [OF ch0], goal_cases)
      case 1 show ?case using n by simp
    next
      case 2
      show ?case
      proof
        fix x assume x: "x \<in> set (take n (a # as))"
        then have "x < length h0" using is_chain_bound [OF ch0] by (auto dest: in_set_takeD)
        then show "x < length H \<and> next_ptr (H ! x) = next_ptr (h0 ! x)"
          using untouched [OF x] lenH h1 by simp
      qed
    qed
    with adv have advH: "advance H (Some a) n = Some (Some c)" by simp
    have "insert_step ub cap H (Some a) pos = Inr (H, Some c)"
      using aH ok True advH by (simp add: insert_step_Some Let_def idem Ha n_def)
    then have "insert_path em ub cap H (Some a) (pos # path) w = insert_path em ub cap H (Some c) path w"
      by (simp add: insert_path_Cons)
    moreover have "no_crash (insert_path em ub cap H (Some c) path w) \<and>
         same_old H (heap_of (insert_path em ub cap H (Some c) path w))"
      using Cons.IH [OF ch1 _ rest] Cons.prems(2) by simp
    ultimately show ?thesis by simp
  next
    case False
    with step a ok have c: "c = length h" and h1: "h1 = splice_after h0 a"
      by (auto simp: insert_step_Some Let_def h0_def n_def split: if_splits)
    have a0: "a < length h0" using a len0 by simp
    have rest1: "is_chain h0 (next_ptr (h0 ! a)) as" using ch0 by simp
    have "is_chain h1 (next_ptr (h0 ! a)) as"
    proof (rule is_chain_cong [OF rest1], intro ballI)
      fix x assume x: "x \<in> set as"
      then have "x < length h0" using is_chain_bound [OF rest1] by blast
      moreover have "x \<noteq> a" using x dist by auto
      ultimately show "x < length h1 \<and> next_ptr (h1 ! x) = next_ptr (h0 ! x)"
        by (simp add: h1 nth_splice_after_other length_splice_after)
    qed
    then have ch1: "is_chain h1 (Some c) (c # as)"
      using a0 by (simp add: c h1 length_splice_after len0 [symmetric] nth_splice_after_new)
    have "a \<notin> set (c # as)" using dist a c by auto
    moreover have "a < length h1" using a len1 by simp
    ultimately have "H ! a = h1 ! a"
      using insert_path_frame [OF ch1 _ rest, of a] Cons.prems(2) by simp
    then have Ha: "letters_table (H ! a) = letters_table (h0 ! a)"
      using a0 by (simp add: h1 nth_splice_after_old)
    have idem: "set_letter ub H a pos = H"
      by (rule set_letter_idem) (simp add: Ha t0 or.assoc)
    have nH: "count_uper_bits ub (H ! a) pos = 0"
      using False count_uper_bits_cong [OF Ha, of ub pos] by (simp add: n_def)
    show ?thesis
    proof (cases "length H < cap")
      case False
      then have "insert_path em ub cap H (Some a) (pos # path) w = Inl (OutOfMemory, H)"
        using aH ok nH by (simp add: insert_path_Cons insert_step_Some Let_def idem)
      then show ?thesis by (simp add: same_old_refl)
    next
      case True
      define g where "g = splice_after H a"
      have again: "insert_path em ub cap H (Some a) (pos # path) w
                     = insert_path em ub cap g (Some (length H)) path w"
        using True aH ok nH by (simp add: insert_path_Cons insert_step_Some Let_def idem g_def)
      have leng: "length g = Suc (length H)" by (simp add: g_def length_splice_after)
      have new: "letters_table (g ! length H) = 0"
        using nth_splice_after_new [OF aH] by (simp add: g_def calloc_node_def)
      have old: "letters_table (g ! x) = letters_table (H ! x) \<and> weight (g ! x) = weight (H ! x)"
        if "x < length H" for x
        using that aH
        by (cases "x = a") (simp_all add: g_def nth_splice_after_old nth_splice_after_other)
      have fresh: "no_crash (insert_path em ub cap g (Some (length H)) path w) \<and>
         length g \<le> length (heap_of (insert_path em ub cap g (Some (length H)) path w)) \<and>
         (\<forall>x<length g. x \<noteq> length H \<longrightarrow>
           letters_table (heap_of (insert_path em ub cap g (Some (length H)) path w) ! x) = letters_table (g ! x) \<and>
           weight (heap_of (insert_path em ub cap g (Some (length H)) path w) ! x) = weight (g ! x))"
        using insert_path_fresh [of "length H" g path em ub cap w] new leng Cons.prems(2) by simp
      show ?thesis
        unfolding again same_old_def using fresh leng old by auto
    qed
  qed
qed

section \<open>The chain of the root\<close>

lemma is_chain_splice_after:
  assumes "is_chain h p (xs @ a # as)" "distinct (xs @ a # as)"
  shows "is_chain (splice_after h a) p (xs @ a # length h # as)"
  using assms
proof (induction xs arbitrary: p)
  case Nil
  then have a: "a < length h" and rest: "is_chain h (next_ptr (h ! a)) as" and dist: "a \<notin> set as"
    by auto
  have "is_chain (splice_after h a) (next_ptr (h ! a)) as"
  proof (rule is_chain_cong [OF rest], intro ballI)
    fix x assume x: "x \<in> set as"
    then have "x < length h" using is_chain_bound [OF rest] by blast
    moreover have "x \<noteq> a" using x dist by auto
    ultimately show "x < length (splice_after h a) \<and> next_ptr (splice_after h a ! x) = next_ptr (h ! x)"
      by (simp add: nth_splice_after_other length_splice_after)
  qed
  with Nil a show ?case
    by (simp add: length_splice_after nth_splice_after_old nth_splice_after_new)
next
  case (Cons x xs)
  then show ?case
    by (auto simp: length_splice_after nth_splice_after_other)
qed

lemma insert_step_root_chain:
  assumes ch: "is_chain h p (xs @ a # as)"
    and step: "insert_step ub cap h (Some a) pos = Inr (h', Some c)"
  shows "\<exists>xs' cs. is_chain h' p (xs' @ c # cs)"
proof -
  have cha: "is_chain h (Some a) (a # as)" using ch by (rule is_chain_append)
  then have a: "a < length h" by simp
  define h0 where "h0 = set_letter ub h a pos"
  define n where "n = count_uper_bits ub (h0 ! a) pos"
  have ch0: "is_chain h0 p (xs @ a # as)"
    unfolding h0_def is_chain_set_letter using ch .
  show ?thesis
  proof (cases "n > 0")
    case True
    with step a have adv: "advance h0 (Some a) n = Some (Some c)" and h': "h' = h0"
      by (auto simp: insert_step_Some Let_def h0_def n_def split: option.splits)
    have "is_chain h0 (Some a) (a # as)" using ch0 by (rule is_chain_append)
    from advance_is_chain [OF this adv] have "n < length (a # as)" "(a # as) ! n = c"
      by simp_all
    then have "c \<in> set (a # as)"
      using nth_mem by blast
    then have "\<exists>ys zs. a # as = ys @ c # zs"
      by (rule split_list)
    then obtain ys zs where "a # as = ys @ c # zs" by blast
    then have "xs @ a # as = (xs @ ys) @ c # zs" by simp
    with ch0 have "is_chain h0 p ((xs @ ys) @ c # zs)" by simp
    then show ?thesis unfolding h' by blast
  next
    case False
    with step a have c: "c = length h" and h': "h' = splice_after h0 a"
      by (auto simp: insert_step_Some Let_def h0_def n_def split: if_splits)
    have "is_chain h' p (xs @ a # length h0 # as)"
      unfolding h' using ch0 is_chain_distinct [OF ch0] by (rule is_chain_splice_after)
    then have "is_chain h' p ((xs @ [a]) @ c # as)"
      by (simp add: c h0_def length_set_letter)
    then show ?thesis by blast
  qed
qed

lemma path_loop_root_chain:
  assumes "is_chain h p (xs @ a # as)" "path_loop ub cap h (Some a) path = Inr (h', Some c)"
  shows "\<exists>xs' cs. is_chain h' p (xs' @ c # cs)"
  using assms
proof (induction path arbitrary: h xs a as)
  case Nil
  then show ?case by auto
next
  case (Cons pos path)
  from Cons.prems(2) obtain h1 i1 where step: "insert_step ub cap h (Some a) pos = Inr (h1, i1)"
    and rest: "path_loop ub cap h1 i1 path = Inr (h', Some c)"
    by (auto split: sum.splits)
  from rest obtain c1 where i1: "i1 = Some c1"
    by (cases i1) (auto dest: path_loop_None)
  from insert_step_root_chain [OF Cons.prems(1) step [unfolded i1]]
  obtain xs1 cs1 where "is_chain h1 p (xs1 @ c1 # cs1)" by blast
  from Cons.IH [OF this rest [unfolded i1]] show ?case .
qed

lemma is_chain_mark_end:
  assumes "mark_end em h i w = Inr h'"
  shows "is_chain h' p as = is_chain h p as"
proof -
  from assms obtain a where i: "i = Some a" and a: "a < length h"
    and h': "h' = h[a := (h ! a)\<lparr>letters_table := letters_table (h ! a) OR em, weight := word_of_int w\<rparr>]"
    by (cases i) (auto split: if_splits)
  have "next_ptr (h' ! x) = next_ptr (h ! x)" for x
    using a by (cases "x = a") (simp_all add: h')
  moreover have "length h' = length h" by (simp add: h')
  ultimately show ?thesis
    by (induction as arbitrary: p) simp_all
qed

text \<open>A completed insertion keeps the chain of the root well formed.\<close>

lemma insert_path_keeps_chain:
  assumes "is_chain h (Some r) (r # rs)" "insert_path em ub cap h (Some r) path w = Inr h'"
  shows "\<exists>rs'. is_chain h' (Some r) (r # rs')"
proof -
  from assms(2) obtain g i where loop: "path_loop ub cap h (Some r) path = Inr (g, i)"
    and fin: "mark_end em g i w = Inr h'"
    by (auto simp: insert_path_def split: sum.splits)
  from fin obtain c where i: "i = Some c" by (cases i) auto
  have "is_chain h (Some r) ([] @ r # rs)" using assms(1) by simp
  from path_loop_root_chain [OF this loop [unfolded i]]
  obtain xs' cs where "is_chain g (Some r) (xs' @ c # cs)" by blast
  then have ch: "is_chain h' (Some r) (xs' @ c # cs)"
    using is_chain_mark_end [OF fin] by simp
  then show ?thesis
    by (cases "xs' @ c # cs") auto
qed

text \<open>On a well-formed chain the cursor never stays where the iteration set its bit: it
  moves on to a later node of the chain or to the node just allocated.\<close>

lemma insert_step_moves_on:
  assumes ch: "is_chain h (Some a) (a # as)"
    and step: "insert_step ub cap h (Some a) pos = Inr (h', Some c)"
  shows "c \<noteq> a"
proof -
  have a: "a < length h" using ch by simp
  from insert_step_chain [OF ch step] have "c \<in> insert (length h) (set as)" by auto
  moreover have "a \<notin> set as" using is_chain_distinct [OF ch] by simp
  ultimately show ?thesis using a by auto
qed

lemma is_chain_fresh_trie: "is_chain fresh_trie (Some 0) [0]"
  by (simp add: fresh_trie_def calloc_node_def)

lemma path_loop_append:
  "path_loop ub cap h i (xs @ ys) =
     (case path_loop ub cap h i xs of
        Inl e \<Rightarrow> Inl e
      | Inr (h1, i1) \<Rightarrow> path_loop ub cap h1 i1 ys)"
  by (induction xs arbitrary: h i) (auto split: sum.splits)

lemma insert_path_final_weight:
  assumes "insert_path em ub cap h i path w = Inr h'"
  shows "\<exists>g c. path_loop ub cap h i path = Inr (g, Some c) \<and> c < length h' \<and>
           weight (h' ! c) = word_of_int w"
proof -
  from assms obtain g j where loop: "path_loop ub cap h i path = Inr (g, j)"
    and fin: "mark_end em g j w = Inr h'"
    by (auto simp: insert_path_def split: sum.splits)
  from fin obtain c where "j = Some c" "c < length g"
    "h' = g[c := (g ! c)\<lparr>letters_table := letters_table (g ! c) OR em, weight := word_of_int w\<rparr>]"
    by (cases j) (auto split: if_splits)
  with loop show ?thesis by auto
qed

lemma grows_mark_end_bits:
  assumes "mark_end em h i w = r" "a < length h" "bit (letters_table (h ! a)) j"
  shows "a < length (heap_of r) \<and> bit (letters_table (heap_of r ! a)) j"
proof (cases i)
  case None
  with assms show ?thesis by auto
next
  case (Some c)
  with assms show ?thesis
    by (cases "c < length h"; cases "a = c") (auto simp: bit_or_iff)
qed





text \<open>
  A returning insertion of a non-empty path puts the end mark and the weight on the node
  \<open>c\<close> the last iteration moves to, never on the node \<open>a\<close> whose bit that iteration set;
  \<open>a\<close> keeps the weight it had.
\<close>

lemma insert_path_marks_other_node:
  assumes ch: "is_chain h (Some r) (r # rs)"
    and run: "insert_path em ub cap h (Some r) (ps @ [p]) w = Inr h'"
  shows "\<exists>g a g' c. path_loop ub cap h (Some r) ps = Inr (g, Some a) \<and>
           insert_step ub cap g (Some a) p = Inr (g', Some c) \<and>
           c \<noteq> a \<and> a < length g \<and> c < length g' \<and>
           h' = g'[c := (g' ! c)\<lparr>letters_table := letters_table (g' ! c) OR em,
                                   weight := word_of_int w\<rparr>] \<and>
           weight (h' ! a) = weight (g ! a)"
proof -
  from run obtain g i where pre: "path_loop ub cap h (Some r) ps = Inr (g, i)"
    and last: "(case insert_step ub cap g i p of Inl e \<Rightarrow> Inl e | Inr (g', j) \<Rightarrow> mark_end em g' j w) = Inr h'"
    by (auto simp: insert_path_def path_loop_append split: sum.splits)
  from last obtain g' j where step: "insert_step ub cap g i p = Inr (g', j)"
    and fin: "mark_end em g' j w = Inr h'"
    by (auto split: sum.splits)
  from step obtain a where i: "i = Some a"
    by (cases i) (auto simp: insert_step_None)
  from fin obtain c where j: "j = Some c" and c: "c < length g'"
    and h': "h' = g'[c := (g' ! c)\<lparr>letters_table := letters_table (g' ! c) OR em,
                                     weight := word_of_int w\<rparr>]"
    by (cases j) (auto split: if_splits)
  have "is_chain h (Some r) ([] @ r # rs)" using ch by simp
  from path_loop_root_chain [OF this pre [unfolded i]]
  obtain xs as where "is_chain g (Some r) (xs @ a # as)" by blast
  then have cha: "is_chain g (Some a) (a # as)" by (rule is_chain_append)
  have ca: "c \<noteq> a"
    using insert_step_moves_on [OF cha step [unfolded i j]] .
  have a: "a < length g" using cha by simp
  have "weight (g' ! a) = weight (g ! a)"
    using grows_insert_step [of g ub cap i p] step a by (simp add: grows_def)
  then have "weight (h' ! a) = weight (g ! a)"
    using ca by (simp add: h')
  then show ?thesis
    using pre step c h' i j ca a by blast
qed

section \<open>The tests of main\<close>

text \<open>
  Claim C1. The claim: after \<open>insert(path, weight)\<close> the node on which the last
  identifier's bit was set is marked and carries the weight; for \<open>[0,1]\<close> with weight 10 on
  a fresh trie that node is the root's next node. The code does otherwise, for every value
  \<open>em\<close> of the end mark: the last iteration sets bit 1 on the root's next node (address 1),
  finds no higher bit there, allocates a third node (address 2) and moves on to it, so
  the mark and the weight 10 land on the third node and the root's next node keeps weight
  0. The assertion \<^verbatim>\<open>root->next->weight == 10\<close> of \<^verbatim>\<open>main\<close> fails on this heap.
\<close>

theorem insert_01_writes_past_last_letter:
  assumes "2 < cap"
  shows "insert_path em ub cap fresh_trie (Some 0) [0, 1] 10 =
     Inr [\<lparr>letters_table = 1, next_ptr = Some 1, weight = 0\<rparr>,
          \<lparr>letters_table = 2, next_ptr = Some 2, weight = 0\<rparr>,
          \<lparr>letters_table = em, next_ptr = None, weight = 10\<rparr>]"
  using assms by (simp add: run_simps insert_step_eval)

theorem insert_01_writes_past_last_letter_witness:
  "insert_path end_mark_truncated shift_wrapped 3 fresh_trie (Some 0) [0, 1] 10 =
     Inr [\<lparr>letters_table = 1, next_ptr = Some 1, weight = 0\<rparr>,
          \<lparr>letters_table = 2, next_ptr = Some 2, weight = 0\<rparr>,
          \<lparr>letters_table = end_mark_truncated, next_ptr = None, weight = 10\<rparr>]"
  using insert_01_writes_past_last_letter [of 3 end_mark_truncated shift_wrapped] by simp

text \<open>
  Claim C2. The claim: no insertion of a valid path follows a null link. The code does:
  after the one-element paths \<open>[5]\<close> and \<open>[2]\<close> the chain is the root and one more node;
  inserting \<open>[1]\<close> finds the two higher bits 2 and 5 on the root, advances twice, and
  the cursor is \<^verbatim>\<open>NULL\<close> when line 87 reads \<^verbatim>\<open>i->letters_table\<close>. The run does end
  (every function of the model is total), but in a null dereference.
\<close>

theorem insert_5_2_1_reads_null:
  assumes "1 < cap"
  shows "insert_path em ub cap fresh_trie (Some 0) [5] w1 =
       Inr [\<lparr>letters_table = 32, next_ptr = Some 1, weight = 0\<rparr>,
            \<lparr>letters_table = em, next_ptr = None, weight = word_of_int w1\<rparr>] \<and>
     insert_path em ub cap
          [\<lparr>letters_table = 32, next_ptr = Some 1, weight = 0\<rparr>,
           \<lparr>letters_table = em, next_ptr = None, weight = word_of_int w1\<rparr>] (Some 0) [2] w2 =
       Inr [\<lparr>letters_table = 36, next_ptr = Some 1, weight = 0\<rparr>,
            \<lparr>letters_table = em, next_ptr = None, weight = word_of_int w2\<rparr>] \<and>
     insert_path em ub cap
          [\<lparr>letters_table = 36, next_ptr = Some 1, weight = 0\<rparr>,
           \<lparr>letters_table = em, next_ptr = None, weight = word_of_int w2\<rparr>] (Some 0) [1] w3 =
       Inl (NullDeref,
            [\<lparr>letters_table = 38, next_ptr = Some 1, weight = 0\<rparr>,
             \<lparr>letters_table = em, next_ptr = None, weight = word_of_int w2\<rparr>])"
  using assms by (simp add: run_simps insert_step_eval)

theorem insert_5_2_1_reads_null_witness:
  "insert_path end_mark_truncated shift_wrapped 2
          [\<lparr>letters_table = 36, next_ptr = Some 1, weight = 0\<rparr>,
           \<lparr>letters_table = end_mark_truncated, next_ptr = None, weight = word_of_int 8\<rparr>] (Some 0) [1] 9 =
       Inl (NullDeref,
            [\<lparr>letters_table = 38, next_ptr = Some 1, weight = 0\<rparr>,
             \<lparr>letters_table = end_mark_truncated, next_ptr = None, weight = word_of_int 8\<rparr>])"
  using insert_5_2_1_reads_null [of 2 end_mark_truncated shift_wrapped 7 8 9] by simp

text \<open>
  Claim C3. The claim: inserting \<open>[0,1,2]\<close> with weight 25 after \<open>[0,1]\<close> reuses the two
  nodes of \<open>[0,1]\<close> and leaves a third chain node with bit 2, the mark and weight 25. The
  code does otherwise: no iteration finds a higher bit, so each of the three allocates,
  and the chain becomes root, 3, 4, 5, 1, 2. The third chain node (address 4) has bit 2
  but weight 0; weight 25 and the mark are on the fourth (address 5); the nodes of the
  first insertion (addresses 1 and 2) now sit behind the new ones. The assertion
  \<^verbatim>\<open>root->next->next->weight == 25\<close> of \<^verbatim>\<open>main\<close> fails on this heap.
\<close>

theorem insert_012_after_01:
  assumes "5 < cap"
  shows "insert_path em ub cap fresh_trie (Some 0) [0, 1] 10 =
       Inr [\<lparr>letters_table = 1, next_ptr = Some 1, weight = 0\<rparr>,
            \<lparr>letters_table = 2, next_ptr = Some 2, weight = 0\<rparr>,
            \<lparr>letters_table = em, next_ptr = None, weight = 10\<rparr>] \<and>
     insert_path em ub cap
          [\<lparr>letters_table = 1, next_ptr = Some 1, weight = 0\<rparr>,
           \<lparr>letters_table = 2, next_ptr = Some 2, weight = 0\<rparr>,
           \<lparr>letters_table = em, next_ptr = None, weight = 10\<rparr>] (Some 0) [0, 1, 2] 25 =
       Inr [\<lparr>letters_table = 1, next_ptr = Some 3, weight = 0\<rparr>,
            \<lparr>letters_table = 2, next_ptr = Some 2, weight = 0\<rparr>,
            \<lparr>letters_table = em, next_ptr = None, weight = 10\<rparr>,
            \<lparr>letters_table = 2, next_ptr = Some 4, weight = 0\<rparr>,
            \<lparr>letters_table = 4, next_ptr = Some 5, weight = 0\<rparr>,
            \<lparr>letters_table = em, next_ptr = Some 1, weight = 25\<rparr>]"
  using assms by (simp add: run_simps insert_step_eval)

theorem insert_012_after_01_witness:
  "insert_path end_mark_truncated shift_wrapped 6
          [\<lparr>letters_table = 1, next_ptr = Some 1, weight = 0\<rparr>,
           \<lparr>letters_table = 2, next_ptr = Some 2, weight = 0\<rparr>,
           \<lparr>letters_table = end_mark_truncated, next_ptr = None, weight = 10\<rparr>] (Some 0) [0, 1, 2] 25 =
       Inr [\<lparr>letters_table = 1, next_ptr = Some 3, weight = 0\<rparr>,
            \<lparr>letters_table = 2, next_ptr = Some 2, weight = 0\<rparr>,
            \<lparr>letters_table = end_mark_truncated, next_ptr = None, weight = 10\<rparr>,
            \<lparr>letters_table = 2, next_ptr = Some 4, weight = 0\<rparr>,
            \<lparr>letters_table = 4, next_ptr = Some 5, weight = 0\<rparr>,
            \<lparr>letters_table = end_mark_truncated, next_ptr = Some 1, weight = 25\<rparr>]"
  using insert_012_after_01 [of 6 end_mark_truncated shift_wrapped] by simp

section \<open>Membership and weights\<close>

text \<open>
  Claim C4. Membership is monotone: a bit that is set on a node before a call of
  \<^verbatim>\<open>insert_path\<close> is set on that node afterwards. This holds for every path and every
  heap, whether the call returns or stops (then for the heap it had reached). In particular,
  inserting \<open>[1,2]\<close> after \<open>[0,1]\<close> and \<open>[0,1,2]\<close> leaves bit 0 on the root and adds
  bit 1, which was not set before.
\<close>

theorem membership_only_grows:
  "(a < length h \<and> bit (letters_table (h ! a)) j \<longrightarrow>
      a < length (heap_of (insert_path em ub cap h root path w)) \<and>
      bit (letters_table (heap_of (insert_path em ub cap h root path w) ! a)) j) \<and>
   (7 < cap \<longrightarrow>
      (\<exists>h1 h2 h3.
          insert_path em ub cap fresh_trie (Some 0) [0, 1] 10 = Inr h1 \<and>
          insert_path em ub cap h1 (Some 0) [0, 1, 2] 25 = Inr h2 \<and>
          insert_path em ub cap h2 (Some 0) [1, 2] 15 = Inr h3 \<and>
          bit (letters_table (h2 ! 0)) 0 \<and> \<not> bit (letters_table (h2 ! 0)) 1 \<and>
          bit (letters_table (h3 ! 0)) 0 \<and> bit (letters_table (h3 ! 0)) 1))"
proof (rule conjI; rule impI)
  assume old: "a < length h \<and> bit (letters_table (h ! a)) j"
  show "a < length (heap_of (insert_path em ub cap h root path w)) \<and>
      bit (letters_table (heap_of (insert_path em ub cap h root path w) ! a)) j"
  proof (cases "path_loop ub cap h root path")
    case (Inl e)
    obtain f g where e: "e = (f, g)" by (cases e)
    have "grows h g"
      using grows_path_loop [of h ub cap root path] Inl e by simp
    then show ?thesis
      using old Inl e by (auto simp: insert_path_def grows_def)
  next
    case (Inr r)
    obtain g i where r: "r = (g, i)" by (cases r)
    have "grows h g"
      using grows_path_loop [of h ub cap root path] Inr r by simp
    then have "a < length g \<and> bit (letters_table (g ! a)) j"
      using old by (auto simp: grows_def)
    then show ?thesis
      using grows_mark_end_bits [of em g i w "mark_end em g i w" a j] Inr r
      by (simp add: insert_path_def)
  qed
next
  assume cap: "7 < cap"
  let ?h1 = "[\<lparr>letters_table = 1, next_ptr = Some 1, weight = 0\<rparr>,
            \<lparr>letters_table = 2, next_ptr = Some 2, weight = 0\<rparr>,
            \<lparr>letters_table = em, next_ptr = None, weight = 10\<rparr>]"
  let ?h2 = "[\<lparr>letters_table = 1, next_ptr = Some 3, weight = 0\<rparr>,
            \<lparr>letters_table = 2, next_ptr = Some 2, weight = 0\<rparr>,
            \<lparr>letters_table = em, next_ptr = None, weight = 10\<rparr>,
            \<lparr>letters_table = 2, next_ptr = Some 4, weight = 0\<rparr>,
            \<lparr>letters_table = 4, next_ptr = Some 5, weight = 0\<rparr>,
            \<lparr>letters_table = em, next_ptr = Some 1, weight = 25\<rparr>]"
  let ?h3 = "[\<lparr>letters_table = 3, next_ptr = Some 6, weight = 0\<rparr>,
            \<lparr>letters_table = 2, next_ptr = Some 2, weight = 0\<rparr>,
            \<lparr>letters_table = em, next_ptr = None, weight = 10\<rparr>,
            \<lparr>letters_table = 2, next_ptr = Some 4, weight = 0\<rparr>,
            \<lparr>letters_table = 4, next_ptr = Some 5, weight = 0\<rparr>,
            \<lparr>letters_table = em, next_ptr = Some 1, weight = 25\<rparr>,
            \<lparr>letters_table = 4, next_ptr = Some 7, weight = 0\<rparr>,
            \<lparr>letters_table = em, next_ptr = Some 3, weight = 15\<rparr>]"
  have t1: "insert_path em ub cap fresh_trie (Some 0) [0, 1] 10 = Inr ?h1"
    using cap by (simp add: run_simps insert_step_eval)
  have t2: "insert_path em ub cap ?h1 (Some 0) [0, 1, 2] 25 = Inr ?h2"
    using cap by (simp add: run_simps insert_step_eval)
  have t3: "insert_path em ub cap ?h2 (Some 0) [1, 2] 15 = Inr ?h3"
    using cap by (simp add: run_simps insert_step_eval)
  have bits: "bit (letters_table (?h2 ! 0)) 0 \<and> \<not> bit (letters_table (?h2 ! 0)) 1 \<and>
          bit (letters_table (?h3 ! 0)) 0 \<and> bit (letters_table (?h3 ! 0)) 1"
    by (simp add: bit_1_iff bit_numeral_word_iff)
  show "\<exists>h1 h2 h3.
          insert_path em ub cap fresh_trie (Some 0) [0, 1] 10 = Inr h1 \<and>
          insert_path em ub cap h1 (Some 0) [0, 1, 2] 25 = Inr h2 \<and>
          insert_path em ub cap h2 (Some 0) [1, 2] 15 = Inr h3 \<and>
          bit (letters_table (h2 ! 0)) 0 \<and> \<not> bit (letters_table (h2 ! 0)) 1 \<and>
          bit (letters_table (h3 ! 0)) 0 \<and> bit (letters_table (h3 ! 0)) 1"
    using t1 t2 t3 bits by blast
qed

theorem membership_only_grows_witness:
  "(0::nat) < length [\<lparr>letters_table = 1, next_ptr = Some 1, weight = 0\<rparr>,
                 \<lparr>letters_table = 0, next_ptr = None, weight = 3\<rparr>] \<and>
   bit (letters_table ([\<lparr>letters_table = 1, next_ptr = Some 1, weight = 0\<rparr>,
                 \<lparr>letters_table = 0, next_ptr = None, weight = 3\<rparr>] ! 0)) 0 \<and>
   bit (letters_table (heap_of (insert_path end_mark_truncated shift_wrapped 8
           [\<lparr>letters_table = 1, next_ptr = Some 1, weight = 0\<rparr>,
            \<lparr>letters_table = 0, next_ptr = None, weight = 3\<rparr>] (Some 0) [4, 2] 9) ! 0)) 0 \<and>
   (7::nat) < 8 \<and>
   (\<exists>h1 h2 h3.
          insert_path end_mark_truncated shift_wrapped 8 fresh_trie (Some 0) [0, 1] 10 = Inr h1 \<and>
          insert_path end_mark_truncated shift_wrapped 8 h1 (Some 0) [0, 1, 2] 25 = Inr h2 \<and>
          insert_path end_mark_truncated shift_wrapped 8 h2 (Some 0) [1, 2] 15 = Inr h3 \<and>
          bit (letters_table (h2 ! 0)) 0 \<and> \<not> bit (letters_table (h2 ! 0)) 1 \<and>
          bit (letters_table (h3 ! 0)) 0 \<and> bit (letters_table (h3 ! 0)) 1)"
  using membership_only_grows [of 0 "[\<lparr>letters_table = 1, next_ptr = Some 1, weight = 0\<rparr>,
                 \<lparr>letters_table = 0, next_ptr = None, weight = 3\<rparr>]" 0 end_mark_truncated shift_wrapped 8 "Some 0" "[4, 2]" 9]
  by simp

text \<open>
  Claim C5. The claim: inserting the same path with the same weight a second time changes
  no membership bit anywhere in the trie and overwrites the weight at the terminal node.
  The code does otherwise. The second walk of \<open>[0,1]\<close> finds no higher bit on the root
  and allocates, although bit 0 is there already and the node of the first walk hangs
  behind it; so it goes on through new nodes only. It adds the nodes at addresses 3 and
  4 in front of the old ones, sets bit 1 on node 3 and stores the weight on node 4. Node
  2, where the first insertion ended, is not written again. The shared prefix, here the
  whole path, is not compressed.
\<close>

theorem reinsert_01_allocates:
  assumes "4 < cap"
  shows "insert_path em ub cap fresh_trie (Some 0) [0, 1] 10 =
       Inr [\<lparr>letters_table = 1, next_ptr = Some 1, weight = 0\<rparr>,
            \<lparr>letters_table = 2, next_ptr = Some 2, weight = 0\<rparr>,
            \<lparr>letters_table = em, next_ptr = None, weight = 10\<rparr>] \<and>
     insert_path em ub cap
          [\<lparr>letters_table = 1, next_ptr = Some 1, weight = 0\<rparr>,
           \<lparr>letters_table = 2, next_ptr = Some 2, weight = 0\<rparr>,
           \<lparr>letters_table = em, next_ptr = None, weight = 10\<rparr>] (Some 0) [0, 1] 10 =
       Inr [\<lparr>letters_table = 1, next_ptr = Some 3, weight = 0\<rparr>,
            \<lparr>letters_table = 2, next_ptr = Some 2, weight = 0\<rparr>,
            \<lparr>letters_table = em, next_ptr = None, weight = 10\<rparr>,
            \<lparr>letters_table = 2, next_ptr = Some 4, weight = 0\<rparr>,
            \<lparr>letters_table = em, next_ptr = Some 1, weight = 10\<rparr>]"
  using assms by (simp add: run_simps insert_step_eval)

theorem reinsert_01_allocates_witness:
  "insert_path end_mark_truncated shift_wrapped 5
          [\<lparr>letters_table = 1, next_ptr = Some 1, weight = 0\<rparr>,
           \<lparr>letters_table = 2, next_ptr = Some 2, weight = 0\<rparr>,
           \<lparr>letters_table = end_mark_truncated, next_ptr = None, weight = 10\<rparr>] (Some 0) [0, 1] 10 =
       Inr [\<lparr>letters_table = 1, next_ptr = Some 3, weight = 0\<rparr>,
            \<lparr>letters_table = 2, next_ptr = Some 2, weight = 0\<rparr>,
            \<lparr>letters_table = end_mark_truncated, next_ptr = None, weight = 10\<rparr>,
            \<lparr>letters_table = 2, next_ptr = Some 4, weight = 0\<rparr>,
            \<lparr>letters_table = end_mark_truncated, next_ptr = Some 1, weight = 10\<rparr>]"
  using reinsert_01_allocates [of 5 end_mark_truncated shift_wrapped] by simp

text \<open>
  What a second insertion of the same path does keep: on a well-formed chain of the root
  (as in a fresh trie and after every returning insertion, \<open>is_chain_fresh_trie\<close> and
  \<open>insert_path_keeps_chain\<close>) the nodes that existed after the first insertion have the
  same tables and weights after the second, which can stop only because \<^verbatim>\<open>calloc\<close>
  fails.
\<close>

lemma reinsert_keeps_old_nodes:
  assumes "is_chain h (Some r) (r # rs)" "\<forall>p\<in>set path. valid_id p"
    and "insert_path em ub cap h (Some r) path w = Inr h1"
  shows "no_crash (insert_path em ub cap h1 (Some r) path w) \<and>
         same_old h1 (heap_of (insert_path em ub cap h1 (Some r) path w))"
  using insert_path_again [OF assms] .

text \<open>
  Claim C10. A call of \<^verbatim>\<open>insert_path\<close> that returns writes one weight: that of the node
  \<open>c\<close> the loop ends on. Every other node has the weight it had before the call, or 0 if
  the call allocated it.
\<close>

theorem weight_written_once:
  assumes "insert_path em ub cap h root path w = Inr h'"
  shows "\<exists>g c. path_loop ub cap h root path = Inr (g, Some c) \<and> c < length h' \<and>
           length h \<le> length h' \<and>
           weight (h' ! c) = word_of_int w \<and>
           (\<forall>a<length h'. a \<noteq> c \<longrightarrow>
              weight (h' ! a) = (if a < length h then weight (h ! a) else 0))"
proof -
  from assms obtain g i where loop: "path_loop ub cap h root path = Inr (g, i)"
    and fin: "mark_end em g i w = Inr h'"
    by (auto simp: insert_path_def split: sum.splits)
  from fin obtain c where i: "i = Some c" and c: "c < length g"
    and h': "h' = g[c := (g ! c)\<lparr>letters_table := letters_table (g ! c) OR em, weight := word_of_int w\<rparr>]"
    by (cases i) (auto split: if_splits)
  have g: "grows h g"
    using grows_path_loop [of h ub cap root path] loop by simp
  have "weight (h' ! a) = (if a < length h then weight (h ! a) else 0)"
    if "a < length h'" "a \<noteq> c" for a
    using that g by (auto simp: h' grows_def)
  moreover have "weight (h' ! c) = word_of_int w" using c by (simp add: h')
  moreover have "length h \<le> length h'" using g by (simp add: h' grows_def)
  ultimately show ?thesis
    using loop i c h' by auto
qed

theorem weight_written_once_witness:
  "insert_path end_mark_truncated shift_wrapped 2 fresh_trie (Some 0) [3] 7 =
     Inr [\<lparr>letters_table = 8, next_ptr = Some 1, weight = 0\<rparr>,
          \<lparr>letters_table = 0, next_ptr = None, weight = 7\<rparr>] \<and>
   (\<exists>g c. path_loop shift_wrapped 2 fresh_trie (Some 0) [3] = Inr (g, Some c) \<and>
           c < length [\<lparr>letters_table = 8, next_ptr = Some 1, weight = 0\<rparr>,
                       \<lparr>letters_table = 0, next_ptr = None, weight = (7 :: 32 word)\<rparr>] \<and>
           length fresh_trie \<le> length [\<lparr>letters_table = 8, next_ptr = Some 1, weight = 0\<rparr>,
                       \<lparr>letters_table = 0, next_ptr = None, weight = (7 :: 32 word)\<rparr>] \<and>
           weight ([\<lparr>letters_table = 8, next_ptr = Some 1, weight = 0\<rparr>,
                    \<lparr>letters_table = 0, next_ptr = None, weight = 7\<rparr>] ! c) = word_of_int 7 \<and>
           (\<forall>a<length [\<lparr>letters_table = 8, next_ptr = Some 1, weight = 0\<rparr>,
                       \<lparr>letters_table = 0, next_ptr = None, weight = (7 :: 32 word)\<rparr>]. a \<noteq> c \<longrightarrow>
              weight ([\<lparr>letters_table = 8, next_ptr = Some 1, weight = 0\<rparr>,
                    \<lparr>letters_table = 0, next_ptr = None, weight = 7\<rparr>] ! a) =
                (if a < length fresh_trie then weight (fresh_trie ! a) else 0)))"
proof -
  have run: "insert_path end_mark_truncated shift_wrapped 2 fresh_trie (Some 0) [3] 7 =
     Inr [\<lparr>letters_table = 8, next_ptr = Some 1, weight = 0\<rparr>,
          \<lparr>letters_table = 0, next_ptr = None, weight = 7\<rparr>]"
    by code_simp
  show ?thesis
    using run weight_written_once [OF run] by blast
qed

section \<open>The end mark\<close>

text \<open>
  Claim C6. The claim: the end mark is bit 64, apart from the bits 0 to 63 of the
  identifiers, so that marking a node never makes an identifier look present. The table
  is a \<^verbatim>\<open>uint64_t\<close> and has no bit 64. Whatever 64-bit value \<open>em\<close> the program uses
  for \<^verbatim>\<open>1ULL << LLA\<close>: either it is 0, and then no node ever passes the test
  \<^verbatim>\<open>letters_table & (1ULL << LLA)\<close> of \<^verbatim>\<open>main\<close>, or marking the fresh root sets on it
  the bit of some identifier of the range 0 to 63. Cut to 64 bits the value is 0
  (\<open>end_mark_truncated_eq\<close>); with the shift count cut to 6 bits it is 1, the bit of
  identifier 0 (\<open>end_mark_wrapped_eq\<close>).
\<close>

theorem end_mark_has_no_bit_of_its_own:
  "(\<forall>nd. \<not> is_marked em nd) \<or>
   (\<exists>pos nd. valid_id pos \<and> mark_end em fresh_trie (Some 0) w = Inr [nd] \<and>
       bit (letters_table nd) (nat pos))"
proof (cases "em = 0")
  case True
  then show ?thesis by (simp add: is_marked_def)
next
  case False
  then obtain n where n: "bit em n"
    by (auto simp: bit_eq_iff)
  then have "n < 64"
    using bit_imp_le_length [of em n] by simp
  then have "valid_id (int n)"
    by (simp add: valid_id_def LLA_def)
  moreover have "mark_end em fresh_trie (Some 0) w =
      Inr [\<lparr>letters_table = em, next_ptr = None, weight = word_of_int w\<rparr>]"
    by (simp add: fresh_trie_def calloc_node_def)
  ultimately show ?thesis
    using n by (intro disjI2 exI [of _ "int n"]) auto
qed

section \<open>Two identifiers at one depth\<close>

text \<open>
  Claim C7, as amended. After the one-element paths \<open>[5]\<close> and \<open>[2]\<close> on a fresh trie
  there is one chain node after the root, not two. Bits 5 and 2 are both on the root
  (table 36). Inserting 5 counts no higher bit and allocates the node; inserting 2 counts
  one higher bit, advances one link and ends on that same node, whose weight it
  overwrites. The offset is the number of bits above the inserted identifier.
\<close>

theorem insert_5_then_2_share_a_node:
  assumes "1 < cap"
  shows "insert_path em ub cap fresh_trie (Some 0) [5] w1 =
       Inr [\<lparr>letters_table = 32, next_ptr = Some 1, weight = 0\<rparr>,
            \<lparr>letters_table = em, next_ptr = None, weight = word_of_int w1\<rparr>] \<and>
     count_uper_bits ub \<lparr>letters_table = 32, next_ptr = None, weight = 0\<rparr> 5 = 0 \<and>
     insert_path em ub cap
          [\<lparr>letters_table = 32, next_ptr = Some 1, weight = 0\<rparr>,
           \<lparr>letters_table = em, next_ptr = None, weight = word_of_int w1\<rparr>] (Some 0) [2] w2 =
       Inr [\<lparr>letters_table = 36, next_ptr = Some 1, weight = 0\<rparr>,
            \<lparr>letters_table = em, next_ptr = None, weight = word_of_int w2\<rparr>] \<and>
     count_uper_bits ub \<lparr>letters_table = 36, next_ptr = Some 1, weight = 0\<rparr> 2 = 1 \<and>
     bit (36 :: 64 word) 5 \<and> bit (36 :: 64 word) 2"
  using assms by (simp add: run_simps insert_step_eval bit_numeral_word_iff)

theorem insert_5_then_2_share_a_node_witness:
  "insert_path end_mark_truncated shift_wrapped 2 fresh_trie (Some 0) [5] 1 =
       Inr [\<lparr>letters_table = 32, next_ptr = Some 1, weight = 0\<rparr>,
            \<lparr>letters_table = end_mark_truncated, next_ptr = None, weight = word_of_int 1\<rparr>] \<and>
     insert_path end_mark_truncated shift_wrapped 2
          [\<lparr>letters_table = 32, next_ptr = Some 1, weight = 0\<rparr>,
           \<lparr>letters_table = end_mark_truncated, next_ptr = None, weight = word_of_int 1\<rparr>] (Some 0) [2] 2 =
       Inr [\<lparr>letters_table = 36, next_ptr = Some 1, weight = 0\<rparr>,
            \<lparr>letters_table = end_mark_truncated, next_ptr = None, weight = word_of_int 2\<rparr>]"
  using insert_5_then_2_share_a_node [of 2 end_mark_truncated shift_wrapped 1 2] by simp

text \<open>The claim as stated fails: the heap after the two insertions has two nodes, the
  root and one node after it.\<close>

theorem insert_5_then_2_counterexample:
  "insert_path end_mark_truncated shift_wrapped 4
      (heap_of (insert_path end_mark_truncated shift_wrapped 4 fresh_trie (Some 0) [5] 1)) (Some 0) [2] 2 =
     Inr [\<lparr>letters_table = 36, next_ptr = Some 1, weight = 0\<rparr>,
          \<lparr>letters_table = 0, next_ptr = None, weight = 2\<rparr>]"
  by code_simp

section \<open>Paths outside the contract\<close>




text \<open>
  Claim C9, as amended. With an empty path \<^verbatim>\<open>insert_path\<close> does not fail: the loop is
  skipped, and lines 87 and 88 put the end mark and the weight on the root. No other node
  changes and none is allocated.
\<close>

theorem empty_path_marks_root:
  assumes "r < length h"
  shows "insert_path em ub cap h (Some r) [] w =
     Inr (h[r := (h ! r)\<lparr>letters_table := letters_table (h ! r) OR em, weight := word_of_int w\<rparr>])"
  using assms by (simp add: insert_path_def)

theorem empty_path_marks_root_witness:
  "(0::nat) < length fresh_trie \<and>
   insert_path end_mark_wrapped shift_wrapped 1 fresh_trie (Some 0) [] 7 =
     Inr (fresh_trie[0 := (fresh_trie ! 0)\<lparr>letters_table := letters_table (fresh_trie ! 0) OR end_mark_wrapped,
                                            weight := word_of_int 7\<rparr>])"
proof -
  have len: "(0::nat) < length fresh_trie" by (simp add: fresh_trie_def)
  show ?thesis
    using len empty_path_marks_root [OF len, of end_mark_wrapped shift_wrapped 1 7] by simp
qed

text \<open>The claim as stated fails: the call returns, with weight 7 stored on the root.\<close>

theorem empty_path_counterexample:
  "insert_path end_mark_truncated shift_wrapped 1 fresh_trie (Some 0) [] 7 =
     Inr [\<lparr>letters_table = 0, next_ptr = None, weight = 7\<rparr>]"
  by code_simp

end
